theory Spec2Isabelle
  imports Main
begin

section \<open>Data model of src/nodes/node.ts\<close>

text \<open>
  Modelled from the spec: the type \<open>Value\<close> is imported from \<open>../types\<close>, which is not
  among the sources. The spec gives the consensus value as one of 0, 1 or the reserved
  placeholder "unknown"; the field comment of \<open>NodeState.x\<close> in node.ts writes the same
  type as \<open>0 | 1 | "?"\<close>.
\<close>

datatype Value = V0 | V1 | VUnknown

text \<open>The type \<open>NodeState\<close>; \<open>null\<close> is \<open>None\<close>.\<close>

record NodeState =
  killed :: bool
  x :: "Value option"
  decided :: "bool option"
  k :: "int option"

text \<open>
  The parameters of \<open>node(nodeId, N, F, initialValue, isFaulty, ...)\<close>. The constant
  \<open>BASE_NODE_PORT\<close> comes from \<open>../config\<close>, which is not among the sources, and is
  taken as a parameter. The two callbacks \<open>nodesAreReady\<close> and \<open>setNodeIsReady\<close> are
  not used by any route handler.
\<close>

record config =
  nodeId :: int
  N :: int
  F :: int
  initialValue :: Value
  isFaulty :: bool
  BASE_NODE_PORT :: int

text \<open>Request bodies are JSON values (\<open>req.body\<close> has type \<open>any\<close>).\<close>

datatype json = JNull | JNum int | JStr string | JObj "(string \<times> json) list"

text \<open>One call of \<open>http.request(options, ...)\<close> followed by \<open>req.write(body)\<close>.\<close>

datatype request =
  Request (hostname: string) (port: int) (path: string) (http_method: string) (body: json)

text \<open>
  A call of the \<open>/start\<close> handler is an async function. It is suspended either at
  \<open>await new Promise(resolve => setTimeout(resolve, 200))\<close> or at
  \<open>await Promise.all(promises)\<close> inside \<open>broadcastVote\<close>, where the list holds the
  peers whose promise has not resolved yet; or it has returned.
\<close>

datatype task = Sleeping | Broadcasting "int list" | Finished

text \<open>
  The variables captured by the handlers: \<open>currentState\<close>, \<open>isRunning\<close> and
  \<open>receivedMessages\<close>. \<open>tasks\<close> holds the calls of the \<open>/start\<close> handler made so
  far (a task is named by its position), and \<open>outbox\<close> records the requests written to
  the network, in order.
\<close>

record node =
  currentState :: NodeState
  isRunning :: bool
  receivedMessages :: "json list"
  tasks :: "task list"
  outbox :: "request list"

text \<open>
  What the event loop can run next: one of the five routes, the 200 ms timer of a
  suspended task, or the end (\<open>True\<close>: the response ended; \<open>False\<close>: the request
  raised \<open>error\<close>) of one delivery of a suspended task.
\<close>

datatype event =
  Status | GetState | Message json | Start | Stop
  | TimerFired nat | Resolved nat int bool

text \<open>\<open>res.status(n).send(text)\<close> and \<open>res.status(n).json(state)\<close>.\<close>

datatype response = Send int string | Json int NodeState

section \<open>The handlers\<close>

definition init :: "config \<Rightarrow> node" where
  "init c =
     \<lparr> currentState =
         \<lparr> killed = False,
           x = (if isFaulty c then None else Some (initialValue c)),
           decided = (if isFaulty c then None else Some False),
           k = (if isFaulty c then None else Some 0) \<rparr>,
       isRunning = False,
       receivedMessages = [],
       tasks = [],
       outbox = [] \<rparr>"

definition status :: "config \<Rightarrow> node \<Rightarrow> node \<times> response option" where
  "status c s =
     (if isFaulty c then (s, Some (Send 500 ''faulty''))
      else (s, Some (Send 200 ''live'')))"

definition getState :: "config \<Rightarrow> node \<Rightarrow> node \<times> response option" where
  "getState c s =
     (if isFaulty c then
        (s, Some (Json 200 \<lparr> killed = killed (currentState s),
                             x = None, decided = None, k = None \<rparr>))
      else (s, Some (Json 200 (currentState s))))"

definition message :: "json \<Rightarrow> node \<Rightarrow> node \<times> response option" where
  "message b s =
     (if killed (currentState s) then (s, Some (Send 503 ''Node is stopped''))
      else (s\<lparr> receivedMessages := receivedMessages s @ [b] \<rparr>,
            Some (Send 200 ''Message received'')))"

text \<open>\<open>JSON.stringify\<close> of the fields of a vote.\<close>

fun json_of_value :: "Value option \<Rightarrow> json" where
  "json_of_value None = JNull"
| "json_of_value (Some V0) = JNum 0"
| "json_of_value (Some V1) = JNum 1"
| "json_of_value (Some VUnknown) = JStr ''?''"

fun json_of_number :: "int option \<Rightarrow> json" where
  "json_of_number None = JNull"
| "json_of_number (Some n) = JNum n"

definition vote :: "Value option \<Rightarrow> int option \<Rightarrow> json" where
  "vote v r =
     JObj [(''type'', JStr ''vote''), (''value'', json_of_value v),
           (''round'', json_of_number r)]"

text \<open>The indices \<open>i\<close> of \<open>for (let i = 0; i < N; i++) if (i !== nodeId)\<close>.\<close>

definition peers :: "config \<Rightarrow> int list" where
  "peers c = filter (\<lambda>i. i \<noteq> nodeId c) (map int [0 ..< nat (N c)])"

text \<open>The requests that \<open>broadcastVote(value, round)\<close> writes before it awaits.\<close>

definition broadcastVote :: "config \<Rightarrow> Value option \<Rightarrow> int option \<Rightarrow> request list" where
  "broadcastVote c v r =
     map (\<lambda>i. Request ''localhost'' (BASE_NODE_PORT c + i) ''/message'' ''POST'' (vote v r))
       (peers c)"

definition consensusPossible :: "config \<Rightarrow> bool" where
  "consensusPossible c = (2 * F c < N c)"

text \<open>
  \<open>currentState.k!\<close> in a comparison or under \<open>++\<close>: JavaScript converts \<open>null\<close> to 0.
\<close>

definition num_k :: "NodeState \<Rightarrow> int" where
  "num_k st = (case k st of None \<Rightarrow> 0 | Some n \<Rightarrow> n)"

text \<open>The condition of the \<open>while\<close> loop of the branch taken.\<close>

definition loop_cond :: "config \<Rightarrow> node \<Rightarrow> bool" where
  "loop_cond c s =
     (if consensusPossible c then
        isRunning s \<and> \<not> killed (currentState s) \<and> num_k (currentState s) < 2
      else
        isRunning s \<and> \<not> killed (currentState s) \<and> num_k (currentState s) \<le> 10)"

text \<open>The statements after the \<open>while\<close> loop of the branch taken.\<close>

definition force_finality :: "config \<Rightarrow> NodeState \<Rightarrow> NodeState" where
  "force_finality c st =
     (if consensusPossible c then st\<lparr> x := Some V1, decided := Some True \<rparr>
      else st\<lparr> decided := Some False \<rparr>)"

text \<open>
  Task \<open>tid\<close> arrives at the head of its loop: it evaluates the condition and either
  suspends at the timer, or leaves the loop, runs the statements after it and returns.
\<close>

definition loop_head :: "config \<Rightarrow> nat \<Rightarrow> node \<Rightarrow> node" where
  "loop_head c tid s =
     (if loop_cond c s then s\<lparr> tasks := (tasks s)[tid := Sleeping] \<rparr>
      else s\<lparr> currentState := force_finality c (currentState s),
              tasks := (tasks s)[tid := Finished] \<rparr>)"

text \<open>Task \<open>tid\<close> resumes after \<open>await broadcastVote(...)\<close>: \<open>currentState.k!++\<close>.\<close>

definition after_broadcast :: "config \<Rightarrow> nat \<Rightarrow> node \<Rightarrow> node" where
  "after_broadcast c tid s =
     loop_head c tid
       (s\<lparr> currentState := (currentState s)\<lparr> k := Some (num_k (currentState s) + 1) \<rparr> \<rparr>)"

text \<open>
  The timer of task \<open>tid\<close> fires: \<open>broadcastVote(currentState.x, currentState.k)\<close>
  writes its requests and awaits them all. \<open>Promise.all([])\<close> is already resolved, so
  with no peer the task goes on without another event.
\<close>

definition timer_fired :: "config \<Rightarrow> nat \<Rightarrow> node \<Rightarrow> node" where
  "timer_fired c tid s =
     (if tid < length (tasks s) \<and> tasks s ! tid = Sleeping then
        (let s1 = s\<lparr> outbox := outbox s @
                       broadcastVote c (x (currentState s)) (k (currentState s)) \<rparr>
         in if peers c = [] then after_broadcast c tid s1
            else s1\<lparr> tasks := (tasks s1)[tid := Broadcasting (peers c)] \<rparr>)
      else s)"

text \<open>
  One delivery of task \<open>tid\<close> resolves its promise, by \<open>res.on("end", resolve)\<close> or by
  \<open>req.on("error", () => resolve())\<close>. The task resumes when the last one has.
\<close>

definition resolved :: "config \<Rightarrow> nat \<Rightarrow> int \<Rightarrow> bool \<Rightarrow> node \<Rightarrow> node" where
  "resolved c tid p ok s =
     (if tid < length (tasks s) then
        (case tasks s ! tid of
           Broadcasting ps \<Rightarrow>
             (if p \<in> set ps then
                (if remove1 p ps = [] then after_broadcast c tid s
                 else s\<lparr> tasks := (tasks s)[tid := Broadcasting (remove1 p ps)] \<rparr>)
              else s)
         | _ \<Rightarrow> s)
      else s)"

definition start :: "config \<Rightarrow> node \<Rightarrow> node \<times> response option" where
  "start c s =
     (if isFaulty c \<or> isRunning s then (s, Some (Send 400 ''Cannot start''))
      else
        (let s1 = s\<lparr> isRunning := True, tasks := tasks s @ [Sleeping] \<rparr>
         in (if \<not> isFaulty c then loop_head c (length (tasks s)) s1
             else s1\<lparr> tasks := tasks s @ [Finished] \<rparr>,
             Some (Send 200 ''Consensus algorithm started''))))"

definition stop :: "node \<Rightarrow> node \<times> response option" where
  "stop s =
     (if killed (currentState s) then (s, Some (Send 400 ''Node already stopped''))
      else (s\<lparr> isRunning := False,
               currentState := (currentState s)\<lparr> killed := True \<rparr> \<rparr>,
            Some (Send 200 ''Consensus algorithm stopped'')))"

fun step :: "config \<Rightarrow> event \<Rightarrow> node \<Rightarrow> node \<times> response option" where
  "step c Status s = status c s"
| "step c GetState s = getState c s"
| "step c (Message b) s = message b s"
| "step c Start s = start c s"
| "step c Stop s = stop s"
| "step c (TimerFired tid) s = (timer_fired c tid s, None)"
| "step c (Resolved tid p ok) s = (resolved c tid p ok s, None)"

fun run :: "config \<Rightarrow> event list \<Rightarrow> node \<Rightarrow> node" where
  "run c [] s = s"
| "run c (e # es) s = run c es (fst (step c e s))"

text \<open>The responses of a run, in order.\<close>

fun responses :: "config \<Rightarrow> event list \<Rightarrow> node \<Rightarrow> response option list" where
  "responses c [] s = []"
| "responses c (e # es) s = snd (step c e s) # responses c es (fst (step c e s))"

section \<open>Schedules and scenarios\<close>

text \<open>The bodies of the \<open>/message\<close> requests of a schedule, in arrival order.\<close>

fun bodies :: "event list \<Rightarrow> json list" where
  "bodies [] = []"
| "bodies (Message b # es) = b # bodies es"
| "bodies (e # es) = bodies es"

text \<open>The two concrete scenarios of the spec, and a faulty node of the first network.\<close>

definition scenario_quick :: config where
  "scenario_quick =
     \<lparr> nodeId = 0, N = 4, F = 1, initialValue = V0, isFaulty = False,
       BASE_NODE_PORT = 3000 \<rparr>"

definition scenario_exceeded :: config where
  "scenario_exceeded =
     \<lparr> nodeId = 0, N = 3, F = 2, initialValue = V1, isFaulty = False,
       BASE_NODE_PORT = 3000 \<rparr>"

definition scenario_faulty :: config where
  "scenario_faulty =
     \<lparr> nodeId = 1, N = 4, F = 1, initialValue = V0, isFaulty = True,
       BASE_NODE_PORT = 3000 \<rparr>"



text \<open>Every event but the arrival of a message.\<close>

fun not_message :: "event \<Rightarrow> bool" where
  "not_message (Message b) = False"
| "not_message e = True"

text \<open>The node with its inbound buffer emptied.\<close>

definition forget :: "node \<Rightarrow> node" where
  "forget s = s\<lparr> receivedMessages := [] \<rparr>"

text \<open>
  The events of one round of task \<open>tid\<close>: its timer fires, then the delivery to each
  peer ends, with the outcome \<open>ok p\<close> for peer \<open>p\<close>.
\<close>

definition round_events :: "config \<Rightarrow> nat \<Rightarrow> (int \<Rightarrow> bool) \<Rightarrow> event list" where
  "round_events c tid ok = TimerFired tid # map (\<lambda>p. Resolved tid p (ok p)) (peers c)"

text \<open>
  How many times the loop body runs from \<open>k = 0\<close> when nothing stops it: while
  \<open>k < 2\<close> in the first branch, while \<open>k <= 10\<close> in the second.
\<close>

definition rounds :: "config \<Rightarrow> int" where
  "rounds c = (if consensusPossible c then 2 else 11)"

text \<open>
  What holds of a node that is not faulty as long as no stop has arrived: either it has
  not been started and is as constructed, or it has been started once, and its one call
  of the loop has either returned after the last round, with the finality step done, or
  is still inside the loop with \<open>x\<close> and \<open>decided\<close> as constructed.
\<close>

fun undisturbed_at :: "config \<Rightarrow> NodeState \<Rightarrow> bool \<Rightarrow> task list \<Rightarrow> bool" where
  "undisturbed_at c st r [] = (\<not> r \<and> st = currentState (init c))"
| "undisturbed_at c st r [t] =
     (r \<and> k st \<noteq> None \<and> 0 \<le> num_k st \<and>
      (if t = Finished then
         num_k st = rounds c \<and>
         x st = (if consensusPossible c then Some V1 else Some (initialValue c)) \<and>
         decided st = Some (consensusPossible c)
       else
         num_k st < rounds c \<and> x st = Some (initialValue c) \<and> decided st = Some False))"
| "undisturbed_at c st r (t # u # ts) = False"

definition undisturbed :: "config \<Rightarrow> node \<Rightarrow> bool" where
  "undisturbed c s =
     (\<not> killed (currentState s) \<and>
      undisturbed_at c (currentState s) (isRunning s) (tasks s))"


section \<open>What each part of a handler leaves alone\<close>

lemmas handler_defs =
  init_def status_def getState_def message_def start_def stop_def timer_fired_def resolved_def
  loop_head_def after_broadcast_def loop_cond_def force_finality_def consensusPossible_def
  num_k_def broadcastVote_def peers_def vote_def Let_def

lemma force_finality_killed [simp]: "killed (force_finality c st) = killed st"
  by (simp add: force_finality_def)

lemma force_finality_k [simp]: "k (force_finality c st) = k st"
  by (simp add: force_finality_def)

lemma loop_head_killed [simp]:
  "killed (currentState (loop_head c tid s)) = killed (currentState s)"
  by (simp add: loop_head_def)

lemma after_broadcast_killed [simp]:
  "killed (currentState (after_broadcast c tid s)) = killed (currentState s)"
  by (simp add: after_broadcast_def)

lemma timer_fired_killed [simp]:
  "killed (currentState (timer_fired c tid s)) = killed (currentState s)"
  by (simp add: timer_fired_def Let_def)

lemma resolved_killed [simp]:
  "killed (currentState (resolved c tid p ok s)) = killed (currentState s)"
  by (simp add: resolved_def split: task.splits)

lemma step_killed:
  "killed (currentState (fst (step c e s))) = (killed (currentState s) \<or> e = Stop)"
  by (cases e) (simp_all add: status_def getState_def message_def start_def stop_def Let_def)

lemma run_killed:
  "killed (currentState (run c evs s)) = (killed (currentState s) \<or> Stop \<in> set evs)"
  by (induction evs arbitrary: s) (auto simp: step_killed)

lemma loop_head_receivedMessages [simp]:
  "receivedMessages (loop_head c tid s) = receivedMessages s"
  by (simp add: loop_head_def)

lemma after_broadcast_receivedMessages [simp]:
  "receivedMessages (after_broadcast c tid s) = receivedMessages s"
  by (simp add: after_broadcast_def)

lemma timer_fired_receivedMessages [simp]:
  "receivedMessages (timer_fired c tid s) = receivedMessages s"
  by (simp add: timer_fired_def Let_def)

lemma resolved_receivedMessages [simp]:
  "receivedMessages (resolved c tid p ok s) = receivedMessages s"
  by (simp add: resolved_def split: task.splits)

lemma step_receivedMessages:
  "receivedMessages (fst (step c e s)) =
     receivedMessages s @ (if killed (currentState s) then [] else bodies [e])"
  by (cases e) (simp_all add: status_def getState_def message_def start_def stop_def Let_def)

lemma run_receivedMessages_killed:
  "killed (currentState s) \<Longrightarrow> receivedMessages (run c evs s) = receivedMessages s"
  by (induction evs arbitrary: s) (simp_all add: step_receivedMessages step_killed)

lemma run_receivedMessages:
  "receivedMessages (run c evs s) =
     receivedMessages s @
       (if killed (currentState s) then [] else bodies (takeWhile (\<lambda>e. e \<noteq> Stop) evs))"
proof (induction evs arbitrary: s)
  case Nil
  show ?case by simp
next
  case (Cons e es)
  show ?case
  proof (cases "killed (currentState s)")
    case True
    then show ?thesis
      by (simp only: run_receivedMessages_killed [OF True] if_True append_Nil2)
  next
    case False
    then show ?thesis
      by (cases e) (simp_all add: Cons.IH step_killed step_receivedMessages
          run_receivedMessages_killed del: step.simps)
  qed
qed

section \<open>Stop\<close>

text \<open>
  C6: \<open>/stop\<close> on a node that is not killed answers 200 and sets \<open>killed\<close> (and clears
  \<open>isRunning\<close>); on a killed node it answers 400 "Node already stopped" and changes
  nothing. So a stop that follows a stop always fails, and of two successive stops on a
  node that was not killed the first succeeds and the second fails.
\<close>

theorem stop_twice:
  "(\<not> killed (currentState s) \<longrightarrow>
      snd (step c Stop s) = Some (Send 200 ''Consensus algorithm stopped'') \<and>
      fst (step c Stop s) =
        s\<lparr> isRunning := False, currentState := (currentState s)\<lparr> killed := True \<rparr> \<rparr>) \<and>
   (killed (currentState s) \<longrightarrow>
      step c Stop s = (s, Some (Send 400 ''Node already stopped''))) \<and>
   step c Stop (fst (step c Stop s)) =
     (fst (step c Stop s), Some (Send 400 ''Node already stopped''))"
  by (simp add: stop_def)

theorem stop_twice_witness:
  "responses scenario_quick [Stop, Stop] (init scenario_quick) =
     [Some (Send 200 ''Consensus algorithm stopped''), Some (Send 400 ''Node already stopped'')] \<and>
   killed (currentState (fst (step scenario_quick Stop (init scenario_quick)))) \<and>
   \<not> killed (currentState (init scenario_quick))"
  using stop_twice [of "init scenario_quick" scenario_quick]
    stop_twice [of "fst (step scenario_quick Stop (init scenario_quick))" scenario_quick]
  by (simp add: init_def)

section \<open>Message ingestion\<close>

text \<open>
  C7: \<open>/message\<close> on a killed node answers 503 "Node is stopped" and leaves the node as
  it is; on a node that is not killed it answers 200 and appends the body to
  \<open>receivedMessages\<close>. No other event touches the buffer: after any schedule it holds,
  after what it held before, exactly the bodies that arrived before the first stop, in
  arrival order.
\<close>

theorem message_ingestion:
  "(killed (currentState s) \<longrightarrow>
      step c (Message b) s = (s, Some (Send 503 ''Node is stopped''))) \<and>
   (\<not> killed (currentState s) \<longrightarrow>
      step c (Message b) s =
        (s\<lparr> receivedMessages := receivedMessages s @ [b] \<rparr>,
         Some (Send 200 ''Message received''))) \<and>
   receivedMessages (run c evs s) =
     receivedMessages s @
       (if killed (currentState s) then [] else bodies (takeWhile (\<lambda>e. e \<noteq> Stop) evs))"
  by (simp add: message_def run_receivedMessages)

theorem message_ingestion_witness:
  "step scenario_quick (Message (JStr ''a'')) (init scenario_quick) =
     ((init scenario_quick)\<lparr> receivedMessages := [JStr ''a''] \<rparr>,
      Some (Send 200 ''Message received'')) \<and>
   step scenario_quick (Message (JStr ''b''))
       (fst (step scenario_quick Stop (init scenario_quick))) =
     (fst (step scenario_quick Stop (init scenario_quick)),
      Some (Send 503 ''Node is stopped'')) \<and>
   receivedMessages
     (run scenario_quick
        [Message (JStr ''a''), Start, Message (JStr ''b''), Stop, Message (JStr ''c'')]
        (init scenario_quick)) = [JStr ''a'', JStr ''b'']"
  using message_ingestion [of "init scenario_quick" scenario_quick "JStr ''a''"
      "[Message (JStr ''a''), Start, Message (JStr ''b''), Stop, Message (JStr ''c'')]"]
    message_ingestion [of "fst (step scenario_quick Stop (init scenario_quick))" scenario_quick
      "JStr ''b''" "[]"]
  by (simp add: handler_defs scenario_quick_def)

section \<open>The kill flag\<close>

text \<open>
  C8: \<open>killed\<close> is false at construction; once true it stays true under every schedule
  of requests, timers and deliveries; and the only event that changes it is a stop on a
  node that is not killed, which sets it.
\<close>

theorem killed_irreversible:
  "\<not> killed (currentState (init c)) \<and>
   (killed (currentState s) \<longrightarrow> killed (currentState (run c evs s))) \<and>
   (killed (currentState (fst (step c e s))) \<noteq> killed (currentState s) \<longrightarrow>
      e = Stop \<and> \<not> killed (currentState s) \<and> killed (currentState (fst (step c e s))))"
  by (auto simp: init_def run_killed step_killed)

theorem killed_irreversible_witness:
  "killed (currentState (fst (step scenario_quick Stop (init scenario_quick)))) \<and>
   killed (currentState (run scenario_quick [Start, TimerFired 0, Stop, Start]
      (fst (step scenario_quick Stop (init scenario_quick))))) \<and>
   killed (currentState (fst (step scenario_quick Stop (init scenario_quick))))
     \<noteq> killed (currentState (init scenario_quick))"
  using killed_irreversible [of scenario_quick
      "fst (step scenario_quick Stop (init scenario_quick))"
      "[Start, TimerFired 0, Stop, Start]" Stop]
    killed_irreversible [of scenario_quick "init scenario_quick" "[]" Stop]
  by (simp add: init_def stop_def)


section \<open>Faulty nodes\<close>

lemma faulty_step_tasks:
  "isFaulty c \<Longrightarrow> tasks s = [] \<Longrightarrow>
     tasks (fst (step c e s)) = [] \<and>
     x (currentState (fst (step c e s))) = x (currentState s) \<and>
     decided (currentState (fst (step c e s))) = decided (currentState s) \<and>
     k (currentState (fst (step c e s))) = k (currentState s) \<and>
     outbox (fst (step c e s)) = outbox s"
  by (cases e) (simp_all add: status_def getState_def message_def start_def stop_def
      timer_fired_def resolved_def)

lemma faulty_run_tasks:
  "isFaulty c \<Longrightarrow> tasks s = [] \<Longrightarrow>
     tasks (run c evs s) = [] \<and>
     x (currentState (run c evs s)) = x (currentState s) \<and>
     decided (currentState (run c evs s)) = decided (currentState s) \<and>
     k (currentState (run c evs s)) = k (currentState s) \<and>
     outbox (run c evs s) = outbox s"
proof (induction evs arbitrary: s)
  case Nil
  then show ?case by simp
next
  case (Cons e es)
  have st: "tasks (fst (step c e s)) = []"
    using faulty_step_tasks [OF Cons.prems, of e] by simp
  from faulty_step_tasks [OF Cons.prems, of e] Cons.IH [OF Cons.prems(1) st]
  show ?case by simp
qed

text \<open>
  C4: for a node constructed with \<open>isFaulty\<close>, in any state whatever its fields hold,
  \<open>/status\<close> answers 500 "faulty", \<open>/getState\<close> answers the true \<open>killed\<close> with
  \<open>x\<close>, \<open>decided\<close> and \<open>k\<close> null, and \<open>/start\<close> answers 400 and changes nothing.
  Under every schedule from construction no round loop is ever started, nothing is
  broadcast, and the stored \<open>x\<close>, \<open>decided\<close> and \<open>k\<close> stay null.
\<close>

theorem faulty_node:
  assumes "isFaulty c"
  shows "snd (step c Status s) = Some (Send 500 ''faulty'') \<and>
         snd (step c GetState s) =
           Some (Json 200 \<lparr> killed = killed (currentState s),
                             x = None, decided = None, k = None \<rparr>) \<and>
         step c Start s = (s, Some (Send 400 ''Cannot start'')) \<and>
         tasks (run c evs (init c)) = [] \<and>
         outbox (run c evs (init c)) = [] \<and>
         x (currentState (run c evs (init c))) = None \<and>
         decided (currentState (run c evs (init c))) = None \<and>
         k (currentState (run c evs (init c))) = None"
proof -
  have "tasks (init c) = []" by (simp add: init_def)
  from faulty_run_tasks [OF assms this, of evs] show ?thesis
    using assms by (simp add: status_def getState_def start_def init_def)
qed

theorem faulty_node_witness:
  "isFaulty scenario_faulty \<and>
   responses scenario_faulty [Status, GetState, Start, Stop, GetState, Start, Status]
     (init scenario_faulty) =
     [Some (Send 500 ''faulty''),
      Some (Json 200 \<lparr> killed = False, x = None, decided = None, k = None \<rparr>),
      Some (Send 400 ''Cannot start''),
      Some (Send 200 ''Consensus algorithm stopped''),
      Some (Json 200 \<lparr> killed = True, x = None, decided = None, k = None \<rparr>),
      Some (Send 400 ''Cannot start''),
      Some (Send 500 ''faulty'')] \<and>
   tasks (run scenario_faulty [Start, TimerFired 0, Stop, Start] (init scenario_faulty)) = []"
proof -
  have f: "isFaulty scenario_faulty" by (simp add: scenario_faulty_def)
  from faulty_node [OF f, of "init scenario_faulty" "[Start, TimerFired 0, Stop, Start]"]
    faulty_node [OF f, of "fst (step scenario_faulty Stop (init scenario_faulty))" "[]"]
  show ?thesis
    by (simp add: handler_defs scenario_faulty_def)
qed


section \<open>The inbound buffer is never read\<close>

lemma forget_step_update:
  "forget (fst (step c e (s\<lparr> receivedMessages := m \<rparr>))) = forget (fst (step c e s))"
  by (cases e) (auto simp: forget_def handler_defs split: task.splits)

lemma forget_eq: "forget s = forget t \<Longrightarrow> t = s\<lparr> receivedMessages := receivedMessages t \<rparr>"
  by (cases s, cases t) (simp add: forget_def)

lemma forget_step_cong:
  assumes "forget s = forget t"
  shows "forget (fst (step c e s)) = forget (fst (step c e t))"
proof -
  from forget_eq [OF assms] have "t = s\<lparr> receivedMessages := receivedMessages t \<rparr>" .
  then have "forget (fst (step c e t)) = forget (fst (step c e (s\<lparr> receivedMessages := receivedMessages t \<rparr>)))"
    by simp
  then show ?thesis by (simp add: forget_step_update)
qed

lemma forget_step_message: "forget (fst (step c (Message b) s)) = forget s"
  by (simp add: forget_def message_def)

lemma forget_run_filter:
  "forget s = forget t \<Longrightarrow> forget (run c evs s) = forget (run c (filter not_message evs) t)"
proof (induction evs arbitrary: s t)
  case Nil
  then show ?case by simp
next
  case (Cons e es)
  show ?case
  proof (cases "not_message e")
    case True
    from forget_step_cong [OF Cons.prems]
    have "forget (fst (step c e s)) = forget (fst (step c e t))" .
    from Cons.IH [OF this] True show ?thesis by simp
  next
    case False
    then obtain b where e: "e = Message b" by (cases e) simp_all
    have "forget (fst (step c e s)) = forget t"
      using Cons.prems by (simp only: e forget_step_message)
    from Cons.IH [OF this] False show ?thesis by simp
  qed
qed

text \<open>
  C10: two schedules from the same node that differ only in the messages posted to
  \<open>/message\<close> (which bodies, how many, and where among the other events) end with the
  same \<open>currentState\<close>, hence the same \<open>x\<close>, \<open>decided\<close> and \<open>k\<close>, and also with
  the same \<open>isRunning\<close>, the same suspended calls and the same broadcasts.
\<close>

theorem messages_do_not_influence:
  assumes "filter not_message evs1 = filter not_message evs2"
  shows "currentState (run c evs1 s) = currentState (run c evs2 s) \<and>
         isRunning (run c evs1 s) = isRunning (run c evs2 s) \<and>
         tasks (run c evs1 s) = tasks (run c evs2 s) \<and>
         outbox (run c evs1 s) = outbox (run c evs2 s)"
proof -
  have "forget (run c evs1 s) = forget (run c (filter not_message evs1) s)"
    by (rule forget_run_filter) simp
  moreover have "forget (run c evs2 s) = forget (run c (filter not_message evs2) s)"
    by (rule forget_run_filter) simp
  ultimately have eq: "forget (run c evs1 s) = forget (run c evs2 s)"
    using assms by simp
  have "currentState (forget (run c evs1 s)) = currentState (forget (run c evs2 s))"
       "isRunning (forget (run c evs1 s)) = isRunning (forget (run c evs2 s))"
       "tasks (forget (run c evs1 s)) = tasks (forget (run c evs2 s))"
       "outbox (forget (run c evs1 s)) = outbox (forget (run c evs2 s))"
    by (simp_all only: eq)
  then show ?thesis by (simp add: forget_def)
qed

theorem messages_do_not_influence_witness:
  "filter not_message [Message (JStr ''a''), Start, TimerFired 0, Message (JNum 7)] =
     filter not_message [Start, Message JNull, TimerFired 0] \<and>
   currentState (run scenario_quick
       [Message (JStr ''a''), Start, TimerFired 0, Message (JNum 7)] (init scenario_quick)) =
     currentState (run scenario_quick
       [Start, Message JNull, TimerFired 0] (init scenario_quick))"
proof -
  have h: "filter not_message [Message (JStr ''a''), Start, TimerFired 0, Message (JNum 7)] =
     filter not_message [Start, Message JNull, TimerFired 0]"
    by simp
  from messages_do_not_influence [OF h, of scenario_quick "init scenario_quick"] h
  show ?thesis by blast
qed

section \<open>One round of the loop\<close>

lemma peers_scenario_quick: "peers scenario_quick = [1, 2, 3]"
  by code_simp

lemma peers_scenario_exceeded: "peers scenario_exceeded = [1, 2]"
  by code_simp







lemma run_append: "run c (es @ fs) s = run c fs (run c es s)"
  by (induction es arbitrary: s) simp_all

lemma loop_cond_rounds:
  "loop_cond c s =
     (isRunning s \<and> \<not> killed (currentState s) \<and> num_k (currentState s) < rounds c)"
  by (auto simp: loop_cond_def rounds_def)

lemma after_broadcast_tasks_update [simp]:
  "after_broadcast c tid (s\<lparr> tasks := (tasks s)[tid := t] \<rparr>) = after_broadcast c tid s"
  by (simp add: after_broadcast_def loop_head_def loop_cond_def)

lemma resolve_all:
  "tid < length (tasks s) \<Longrightarrow> tasks s ! tid = Broadcasting ps \<Longrightarrow> ps \<noteq> [] \<Longrightarrow>
     run c (map (\<lambda>p. Resolved tid p (ok p)) ps) s = after_broadcast c tid s"
proof (induction ps arbitrary: s)
  case Nil
  then show ?case by simp
next
  case (Cons p ps)
  show ?case
  proof (cases "ps = []")
    case True
    with Cons.prems show ?thesis by (simp add: resolved_def)
  next
    case False
    let ?s = "s\<lparr> tasks := (tasks s)[tid := Broadcasting ps] \<rparr>"
    have st: "fst (step c (Resolved tid p (ok p)) s) = ?s"
      using Cons.prems False by (simp add: resolved_def)
    have "run c (map (\<lambda>p. Resolved tid p (ok p)) ps) ?s = after_broadcast c tid ?s"
      using Cons.prems(1) False by (intro Cons.IH) simp_all
    then show ?thesis by (simp add: st del: step.simps)
  qed
qed

lemma round_run:
  assumes "tid < length (tasks s)" and "tasks s ! tid = Sleeping"
  shows "run c (round_events c tid ok) s =
           after_broadcast c tid
             (s\<lparr> outbox := outbox s @
                    broadcastVote c (x (currentState s)) (k (currentState s)) \<rparr>)"
proof (cases "peers c = []")
  case True
  with assms show ?thesis by (simp add: round_events_def timer_fired_def Let_def)
next
  case False
  let ?s1 = "s\<lparr> outbox := outbox s @
                    broadcastVote c (x (currentState s)) (k (currentState s)) \<rparr>"
  let ?s2 = "?s1\<lparr> tasks := (tasks ?s1)[tid := Broadcasting (peers c)] \<rparr>"
  have st: "timer_fired c tid s = ?s2"
    using assms False by (simp add: timer_fired_def Let_def)
  have "run c (map (\<lambda>p. Resolved tid p (ok p)) (peers c)) ?s2 = after_broadcast c tid ?s2"
    using assms(1) False by (intro resolve_all) simp_all
  also have "after_broadcast c tid ?s2 = after_broadcast c tid ?s1"
    by (rule after_broadcast_tasks_update)
  finally show ?thesis by (simp add: round_events_def st)
qed

lemma after_broadcast_running:
  assumes "isRunning s" and "\<not> killed (currentState s)" and "k (currentState s) = Some j"
  shows "after_broadcast c tid s =
     (if j + 1 < rounds c then
        s\<lparr> currentState := (currentState s)\<lparr> k := Some (j + 1) \<rparr>,
           tasks := (tasks s)[tid := Sleeping] \<rparr>
      else
        s\<lparr> currentState := force_finality c ((currentState s)\<lparr> k := Some (j + 1) \<rparr>),
           tasks := (tasks s)[tid := Finished] \<rparr>)"
  using assms by (simp add: after_broadcast_def loop_head_def loop_cond_rounds num_k_def)






section \<open>Runs that nothing stops\<close>

lemma undisturbed_init: "\<not> isFaulty c \<Longrightarrow> undisturbed c (init c)"
  by (simp add: undisturbed_def init_def)

lemma undisturbed_frame:
  "currentState s' = currentState s \<Longrightarrow> tasks s' = tasks s \<Longrightarrow> isRunning s' = isRunning s \<Longrightarrow>
     undisturbed c s' = undisturbed c s"
  by (simp add: undisturbed_def)

lemma undisturbed_after_broadcast:
  assumes "undisturbed c s" and "tasks s = [t]" and "t \<noteq> Finished"
  shows "undisturbed c (after_broadcast c 0 s)"
  using assms
  by (auto simp: undisturbed_def after_broadcast_def loop_head_def loop_cond_rounds
      num_k_def force_finality_def)

lemma undisturbed_tasks:
  assumes "undisturbed c s" and "tid < length (tasks s)"
  obtains t where "tasks s = [t]" and "tid = 0"
proof (cases "tasks s")
  case Nil
  with assms(2) show ?thesis by simp
next
  case (Cons t ts)
  with assms have "ts = []" by (cases ts) (simp_all add: undisturbed_def)
  with Cons assms(2) that show ?thesis by simp
qed

lemma undisturbed_step:
  assumes "\<not> isFaulty c" and "undisturbed c s" and "e \<noteq> Stop"
  shows "undisturbed c (fst (step c e s))"
proof (cases e)
  case Status
  with assms show ?thesis by (simp add: status_def)
next
  case GetState
  with assms show ?thesis by (simp add: getState_def)
next
  case (Message b)
  with assms show ?thesis by (simp add: message_def undisturbed_def)
next
  case Start
  show ?thesis
  proof (cases "isRunning s")
    case True
    with assms Start show ?thesis by (simp add: start_def)
  next
    case False
    with assms(2) have ts: "tasks s = []" and cs: "currentState s = currentState (init c)"
      by (cases "tasks s"; cases "tl (tasks s)"; simp add: undisturbed_def)+
    have "loop_cond c (s\<lparr> isRunning := True, tasks := [Sleeping] \<rparr>)"
      using assms(1) cs by (simp add: loop_cond_rounds init_def num_k_def rounds_def)
    with assms(1) False ts cs Start show ?thesis
      by (simp add: start_def loop_head_def undisturbed_def init_def num_k_def rounds_def)
  qed
next
  case Stop
  with assms show ?thesis by simp
next
  case (TimerFired tid)
  show ?thesis
  proof (cases "tid < length (tasks s) \<and> tasks s ! tid = Sleeping")
    case False
    with assms TimerFired show ?thesis by (auto simp: timer_fired_def)
  next
    case True
    with assms(2) have ts: "tasks s = [Sleeping]" and tid: "tid = 0"
      by (auto elim: undisturbed_tasks)
    let ?s1 = "s\<lparr> outbox := outbox s @
                    broadcastVote c (x (currentState s)) (k (currentState s)) \<rparr>"
    have u1: "undisturbed c ?s1" using assms(2) by (simp add: undisturbed_def)
    show ?thesis
    proof (cases "peers c = []")
      case True
      have "undisturbed c (after_broadcast c 0 ?s1)"
        by (rule undisturbed_after_broadcast [OF u1, of Sleeping]) (simp_all add: ts)
      with True ts tid TimerFired show ?thesis by (simp add: timer_fired_def Let_def)
    next
      case False
      with ts tid TimerFired assms(2) show ?thesis
        by (simp add: timer_fired_def Let_def undisturbed_def)
    qed
  qed
next
  case (Resolved tid p ok)
  show ?thesis
  proof (cases "tid < length (tasks s)")
    case False
    with assms Resolved show ?thesis by (simp add: resolved_def)
  next
    case True
    with assms(2) obtain t where ts: "tasks s = [t]" and tid: "tid = 0"
      by (auto elim: undisturbed_tasks)
    show ?thesis
    proof (cases t)
      case Sleeping
      with ts tid Resolved assms(2) show ?thesis by (simp add: resolved_def)
    next
      case Finished
      with ts tid Resolved assms(2) show ?thesis by (simp add: resolved_def)
    next
      case (Broadcasting ps)
      have ab: "undisturbed c (after_broadcast c 0 s)"
        by (rule undisturbed_after_broadcast [OF assms(2) ts]) (simp add: Broadcasting)
      have "undisturbed c (s\<lparr> tasks := [Broadcasting (remove1 p ps)] \<rparr>)"
        using assms(2) ts Broadcasting by (simp add: undisturbed_def)
      with ab ts tid Resolved Broadcasting assms(2) show ?thesis
        by (simp add: resolved_def)
    qed
  qed
qed

lemma undisturbed_run:
  "\<not> isFaulty c \<Longrightarrow> undisturbed c s \<Longrightarrow> Stop \<notin> set evs \<Longrightarrow> undisturbed c (run c evs s)"
proof (induction evs arbitrary: s)
  case Nil
  then show ?case by simp
next
  case (Cons e es)
  from Cons.prems have "undisturbed c (fst (step c e s))"
    by (intro undisturbed_step) auto
  with Cons.prems Cons.IH [of "fst (step c e s)"] show ?case by simp
qed

lemma undisturbed_finished:
  assumes "undisturbed c s" and "tid < length (tasks s)" and "tasks s ! tid = Finished"
  shows "currentState s =
           \<lparr> killed = False,
             x = (if consensusPossible c then Some V1 else Some (initialValue c)),
             decided = Some (consensusPossible c),
             k = Some (rounds c) \<rparr>"
proof -
  from assms have ts: "tasks s = [Finished]"
    by (auto elim: undisturbed_tasks)
  with assms(1) have "\<not> killed (currentState s)"
    and "x (currentState s) = (if consensusPossible c then Some V1 else Some (initialValue c))"
    and "decided (currentState s) = Some (consensusPossible c)"
    and "k (currentState s) = Some (rounds c)"
    by (auto simp: undisturbed_def num_k_def)
  then show ?thesis by (cases "currentState s") simp
qed

lemma completed_run:
  assumes "\<not> isFaulty c" and "Stop \<notin> set evs"
    and "tid < length (tasks (run c evs (init c)))"
    and "tasks (run c evs (init c)) ! tid = Finished"
  shows "currentState (run c evs (init c)) =
           \<lparr> killed = False,
             x = (if consensusPossible c then Some V1 else Some (initialValue c)),
             decided = Some (consensusPossible c),
             k = Some (rounds c) \<rparr>"
proof -
  have "undisturbed c (run c evs (init c))"
    using assms(1,2) by (intro undisturbed_run undisturbed_init)
  from undisturbed_finished [OF this assms(3,4)] show ?thesis .
qed

lemma rounds_run:
  assumes "tasks s = [Sleeping]" and "isRunning s" and "\<not> killed (currentState s)"
    and "k (currentState s) = Some j" and "j + int (length oks) = rounds c" and "oks \<noteq> []"
  shows "tasks (run c (concat (map (round_events c 0) oks)) s) = [Finished]"
  using assms
proof (induction oks arbitrary: s j)
  case Nil
  then show ?case by simp
next
  case (Cons ok oks)
  let ?s1 = "s\<lparr> outbox := outbox s @
                    broadcastVote c (x (currentState s)) (k (currentState s)) \<rparr>"
  have r: "run c (round_events c 0 ok) s = after_broadcast c 0 ?s1"
    using Cons.prems(1) by (intro round_run) simp_all
  have ab: "after_broadcast c 0 ?s1 =
     (if j + 1 < rounds c then
        ?s1\<lparr> currentState := (currentState ?s1)\<lparr> k := Some (j + 1) \<rparr>,
           tasks := (tasks ?s1)[0 := Sleeping] \<rparr>
      else
        ?s1\<lparr> currentState := force_finality c ((currentState ?s1)\<lparr> k := Some (j + 1) \<rparr>),
           tasks := (tasks ?s1)[0 := Finished] \<rparr>)"
    using Cons.prems by (intro after_broadcast_running) simp_all
  show ?case
  proof (cases "oks = []")
    case True
    with Cons.prems(5) have "\<not> j + 1 < rounds c" by simp
    with ab Cons.prems(1) have "tasks (after_broadcast c 0 ?s1) = [Finished]" by simp
    with True r show ?thesis by (simp del: run.simps)
  next
    case False
    let ?s2 = "after_broadcast c 0 ?s1"
    have lt: "j + 1 < rounds c" using Cons.prems(5) False by (cases oks) auto
    have "tasks (run c (concat (map (round_events c 0) oks)) ?s2) = [Finished]"
    proof (rule Cons.IH [of ?s2 "j + 1"])
      show "tasks ?s2 = [Sleeping]" using Cons.prems(1) lt by (simp add: ab)
      show "isRunning ?s2" using Cons.prems(2) lt by (simp add: ab)
      show "\<not> killed (currentState ?s2)" using Cons.prems(3) by simp
      show "k (currentState ?s2) = Some (j + 1)" using lt by (simp add: ab)
      show "j + 1 + int (length oks) = rounds c" using Cons.prems(5) by simp
      show "oks \<noteq> []" by (rule False)
    qed
    then show ?thesis by (simp add: run_append r del: run.simps)
  qed
qed

lemma start_init:
  assumes "\<not> isFaulty c"
  shows "fst (step c Start (init c)) = (init c)\<lparr> isRunning := True, tasks := [Sleeping] \<rparr>"
  using assms by (simp add: start_def loop_head_def loop_cond_rounds init_def num_k_def rounds_def)

lemma full_run_finishes:
  assumes "\<not> isFaulty c" and "int (length oks) = rounds c"
  shows "tasks (run c (Start # concat (map (round_events c 0) oks)) (init c)) = [Finished]"
proof -
  have "oks \<noteq> []" using assms(2) by (auto simp: rounds_def split: if_splits)
  then have "tasks (run c (concat (map (round_events c 0) oks))
      ((init c)\<lparr> isRunning := True, tasks := [Sleeping] \<rparr>)) = [Finished]"
    using assms by (intro rounds_run [where j = 0]) (simp_all add: init_def)
  then show ?thesis by (simp add: start_init [OF assms(1)] del: step.simps)
qed

lemma Stop_notin_round_events: "Stop \<notin> set (round_events c tid ok)"
  by (auto simp: round_events_def)

lemma Stop_notin_rounds: "Stop \<notin> set (Start # concat (map (round_events c tid) oks))"
  by (auto simp: round_events_def)


text \<open>
  C2: for a node that is not faulty with \<open>2 * F < N\<close>. Under every schedule from
  construction in which no stop arrives, once a call of the round loop has returned the
  state is \<open>decided = true\<close>, \<open>x = 1\<close>, \<open>k = 2\<close>, \<open>killed = false\<close>. And the
  loop does return: after a start and two rounds, whatever the outcome of each delivery,
  the call has returned with that state.
\<close>

theorem quick_consensus:
  assumes "\<not> isFaulty c" and "2 * F c < N c"
  shows "(Stop \<notin> set evs \<and> tid < length (tasks (run c evs (init c))) \<and>
          tasks (run c evs (init c)) ! tid = Finished \<longrightarrow>
            currentState (run c evs (init c)) =
              \<lparr> killed = False, x = Some V1, decided = Some True, k = Some 2 \<rparr>) \<and>
         tasks (run c (Start # round_events c 0 ok1 @ round_events c 0 ok2) (init c)) =
           [Finished] \<and>
         currentState (run c (Start # round_events c 0 ok1 @ round_events c 0 ok2) (init c)) =
           \<lparr> killed = False, x = Some V1, decided = Some True, k = Some 2 \<rparr>"
proof -
  from assms(2) have cp: "consensusPossible c" by (simp add: consensusPossible_def)
  then have r: "rounds c = 2" by (simp add: rounds_def)
  have a: "Stop \<notin> set evs \<and> tid < length (tasks (run c evs (init c))) \<and>
          tasks (run c evs (init c)) ! tid = Finished \<longrightarrow>
            currentState (run c evs (init c)) =
              \<lparr> killed = False, x = Some V1, decided = Some True, k = Some 2 \<rparr>" for evs tid
    using completed_run [OF assms(1), of evs tid] cp r by simp
  let ?evs = "Start # round_events c 0 ok1 @ round_events c 0 ok2"
  have f: "tasks (run c ?evs (init c)) = [Finished]"
    using full_run_finishes [OF assms(1), of "[ok1, ok2]"] r by simp
  have "Stop \<notin> set ?evs" by (auto simp: round_events_def)
  with a [of ?evs 0] f show ?thesis using a by simp
qed

theorem quick_consensus_witness:
  "\<not> isFaulty scenario_quick \<and> 2 * F scenario_quick < N scenario_quick \<and>
   Stop \<notin> set [Start, TimerFired 0, Resolved 0 1 True, Resolved 0 2 False, Resolved 0 3 True,
        TimerFired 0, Resolved 0 1 True, Resolved 0 2 True, Resolved 0 3 True] \<and>
   tasks (run scenario_quick
       [Start, TimerFired 0, Resolved 0 1 True, Resolved 0 2 False, Resolved 0 3 True,
        TimerFired 0, Resolved 0 1 True, Resolved 0 2 True, Resolved 0 3 True]
       (init scenario_quick)) = [Finished] \<and>
   currentState (run scenario_quick
       [Start, TimerFired 0, Resolved 0 1 True, Resolved 0 2 False, Resolved 0 3 True,
        TimerFired 0, Resolved 0 1 True, Resolved 0 2 True, Resolved 0 3 True]
       (init scenario_quick)) =
     \<lparr> killed = False, x = Some V1, decided = Some True, k = Some 2 \<rparr>"
proof -
  let ?evs = "[Start, TimerFired 0, Resolved 0 1 True, Resolved 0 2 False, Resolved 0 3 True,
        TimerFired 0, Resolved 0 1 True, Resolved 0 2 True, Resolved 0 3 True]"
  have h1: "\<not> isFaulty scenario_quick" and h2: "2 * F scenario_quick < N scenario_quick"
    by (simp_all add: scenario_quick_def)
  have e: "Start # round_events scenario_quick 0 (\<lambda>p. p \<noteq> 2) @
             round_events scenario_quick 0 (\<lambda>p. True) = ?evs"
    by (simp add: round_events_def peers_scenario_quick)
  have n: "Stop \<notin> set ?evs" by simp
  note inst = quick_consensus [OF h1 h2, of ?evs 0 "\<lambda>p. p \<noteq> 2" "\<lambda>p. True"]
  from inst have f: "tasks (run scenario_quick ?evs (init scenario_quick)) = [Finished]"
    by (simp only: e)
  then have "0 < length (tasks (run scenario_quick ?evs (init scenario_quick)))"
    and "tasks (run scenario_quick ?evs (init scenario_quick)) ! 0 = Finished"
    by (simp_all only: f) simp_all
  with inst n have "currentState (run scenario_quick ?evs (init scenario_quick)) =
     \<lparr> killed = False, x = Some V1, decided = Some True, k = Some 2 \<rparr>"
    by blast
  with h1 h2 n f show ?thesis by blast
qed

text \<open>
  C3: for a node that is not faulty with \<open>2 * F \<ge> N\<close>. Under every schedule from
  construction in which no stop arrives, once a call of the round loop has returned the
  state is \<open>decided = false\<close>, \<open>k = 11\<close>, \<open>killed = false\<close>, with \<open>x\<close> still the
  initial value. And the loop does return: after a start and eleven rounds, whatever
  the outcome of each delivery, the call has returned with that state.
\<close>

theorem fault_bound_exceeded:
  assumes "\<not> isFaulty c" and "N c \<le> 2 * F c"
  shows "(Stop \<notin> set evs \<and> tid < length (tasks (run c evs (init c))) \<and>
          tasks (run c evs (init c)) ! tid = Finished \<longrightarrow>
            currentState (run c evs (init c)) =
              \<lparr> killed = False, x = Some (initialValue c), decided = Some False,
                k = Some 11 \<rparr>) \<and>
         (length oks = 11 \<longrightarrow>
            tasks (run c (Start # concat (map (round_events c 0) oks)) (init c)) =
              [Finished] \<and>
            currentState (run c (Start # concat (map (round_events c 0) oks)) (init c)) =
              \<lparr> killed = False, x = Some (initialValue c), decided = Some False,
                k = Some 11 \<rparr>)"
proof -
  from assms(2) have cp: "\<not> consensusPossible c" by (simp add: consensusPossible_def)
  then have r: "rounds c = 11" by (simp add: rounds_def)
  have a: "Stop \<notin> set evs \<and> tid < length (tasks (run c evs (init c))) \<and>
          tasks (run c evs (init c)) ! tid = Finished \<longrightarrow>
            currentState (run c evs (init c)) =
              \<lparr> killed = False, x = Some (initialValue c), decided = Some False,
                k = Some 11 \<rparr>" for evs tid
    using completed_run [OF assms(1), of evs tid] cp r by simp
  let ?evs = "Start # concat (map (round_events c 0) oks)"
  have f: "length oks = 11 \<Longrightarrow> tasks (run c ?evs (init c)) = [Finished]"
    using full_run_finishes [OF assms(1), of oks] r by simp
  have "Stop \<notin> set ?evs" by (rule Stop_notin_rounds)
  with a [of ?evs 0] f show ?thesis using a by simp
qed

theorem fault_bound_exceeded_witness:
  "\<not> isFaulty scenario_exceeded \<and> N scenario_exceeded \<le> 2 * F scenario_exceeded \<and>
   Stop \<notin> set (Start #
       concat (replicate 11 [TimerFired 0, Resolved 0 1 True, Resolved 0 2 False])) \<and>
   tasks (run scenario_exceeded
       (Start # concat (replicate 11 [TimerFired 0, Resolved 0 1 True, Resolved 0 2 False]))
       (init scenario_exceeded)) = [Finished] \<and>
   currentState (run scenario_exceeded
       (Start # concat (replicate 11 [TimerFired 0, Resolved 0 1 True, Resolved 0 2 False]))
       (init scenario_exceeded)) =
     \<lparr> killed = False, x = Some V1, decided = Some False, k = Some 11 \<rparr>"
proof -
  let ?evs = "Start #
       concat (replicate 11 [TimerFired 0, Resolved 0 1 True, Resolved 0 2 False])"
  let ?oks = "replicate 11 (\<lambda>p::int. p \<noteq> 2)"
  have h1: "\<not> isFaulty scenario_exceeded"
    and h2: "N scenario_exceeded \<le> 2 * F scenario_exceeded"
    and iv: "initialValue scenario_exceeded = V1"
    by (simp_all add: scenario_exceeded_def)
  have "round_events scenario_exceeded 0 (\<lambda>p. p \<noteq> 2) =
             [TimerFired 0, Resolved 0 1 True, Resolved 0 2 False]"
    by (simp add: round_events_def peers_scenario_exceeded)
  then have e: "Start # concat (map (round_events scenario_exceeded 0) ?oks) = ?evs"
    by (simp only: map_replicate)
  have l: "length ?oks = 11" by simp
  have n: "Stop \<notin> set ?evs" by simp
  note inst = fault_bound_exceeded [OF h1 h2, of ?evs 0 ?oks]
  from inst l have f: "tasks (run scenario_exceeded ?evs (init scenario_exceeded)) = [Finished]"
    by (simp only: e)
  then have "0 < length (tasks (run scenario_exceeded ?evs (init scenario_exceeded)))"
    and "tasks (run scenario_exceeded ?evs (init scenario_exceeded)) ! 0 = Finished"
    by (simp_all only: f) simp_all
  with inst n have "currentState (run scenario_exceeded ?evs (init scenario_exceeded)) =
     \<lparr> killed = False, x = Some (initialValue scenario_exceeded), decided = Some False,
       k = Some 11 \<rparr>"
    by blast
  with h1 h2 n f show ?thesis by (simp only: iv) blast
qed

section \<open>Stopping a running node\<close>

lemma after_broadcast_killed_exit:
  assumes "killed (currentState s)" and "tid < length (tasks s)"
  shows "tasks (after_broadcast c tid s) ! tid = Finished"
    and "outbox (after_broadcast c tid s) = outbox s"
    and "decided (currentState (after_broadcast c tid s)) = Some (2 * F c < N c)"
    and "x (currentState (after_broadcast c tid s)) =
           (if 2 * F c < N c then Some V1 else x (currentState s))"
    and "k (currentState (after_broadcast c tid s)) = Some (num_k (currentState s) + 1)"
  using assms
  by (simp_all add: after_broadcast_def loop_head_def loop_cond_def force_finality_def
      consensusPossible_def)

lemma scenario_quick_started_stopped:
  "run scenario_quick [Start, Stop] (init scenario_quick) =
     \<lparr> currentState = \<lparr> killed = True, x = Some V0, decided = Some False, k = Some 0 \<rparr>,
       isRunning = False, receivedMessages = [], tasks = [Sleeping], outbox = [] \<rparr>"
  by code_simp


text \<open>
  C1, as the claim states it, fails: in the first scenario of the spec, a stop that
  arrives while the loop waits for its first timer leaves \<open>x = 0\<close> and
  \<open>decided = false\<close>; when the round in flight has ended, the loop has exited and
  has written \<open>x = 1\<close> and \<open>decided = true\<close>, with \<open>killed\<close> true.
\<close>

theorem stop_then_decided_counterexample:
  "killed (currentState (run scenario_quick [Start, Stop] (init scenario_quick))) \<and>
   tasks (run scenario_quick [Start, Stop] (init scenario_quick)) = [Sleeping] \<and>
   x (currentState (run scenario_quick [Start, Stop] (init scenario_quick))) = Some V0 \<and>
   decided (currentState (run scenario_quick [Start, Stop] (init scenario_quick))) =
     Some False \<and>
   currentState (run scenario_quick
       [Start, Stop, TimerFired 0, Resolved 0 1 True, Resolved 0 2 True, Resolved 0 3 True]
       (init scenario_quick)) =
     \<lparr> killed = True, x = Some V1, decided = Some True, k = Some 1 \<rparr>"
  by code_simp


text \<open>
  C1, amended: when \<open>killed\<close> is set while a call of the round loop is suspended, the
  call finishes the round in flight (suspended at the timer, it still broadcasts the
  vote of that round; suspended in the broadcast, it sends nothing more), advances \<open>k\<close>
  once, and at the next evaluation of the loop condition leaves the loop for good. The
  statements after the loop still run: \<open>decided\<close> becomes true and \<open>x\<close> becomes 1
  when \<open>2 * F < N\<close>; otherwise \<open>decided\<close> becomes false and \<open>x\<close> is unchanged.
\<close>

theorem stop_ends_loop_with_finality:
  assumes "killed (currentState s)" and "tid < length (tasks s)"
  shows "(tasks s ! tid = Sleeping \<longrightarrow>
            tasks (run c (round_events c tid ok) s) ! tid = Finished \<and>
            outbox (run c (round_events c tid ok) s) =
              outbox s @ broadcastVote c (x (currentState s)) (k (currentState s)) \<and>
            k (currentState (run c (round_events c tid ok) s)) =
              Some (num_k (currentState s) + 1) \<and>
            decided (currentState (run c (round_events c tid ok) s)) = Some (2 * F c < N c) \<and>
            x (currentState (run c (round_events c tid ok) s)) =
              (if 2 * F c < N c then Some V1 else x (currentState s))) \<and>
         (tasks s ! tid = Broadcasting ps \<and> ps \<noteq> [] \<longrightarrow>
            tasks (run c (map (\<lambda>p. Resolved tid p (ok p)) ps) s) ! tid = Finished \<and>
            outbox (run c (map (\<lambda>p. Resolved tid p (ok p)) ps) s) = outbox s \<and>
            k (currentState (run c (map (\<lambda>p. Resolved tid p (ok p)) ps) s)) =
              Some (num_k (currentState s) + 1) \<and>
            decided (currentState (run c (map (\<lambda>p. Resolved tid p (ok p)) ps) s)) =
              Some (2 * F c < N c) \<and>
            x (currentState (run c (map (\<lambda>p. Resolved tid p (ok p)) ps) s)) =
              (if 2 * F c < N c then Some V1 else x (currentState s)))"
proof (intro conjI impI)
  assume sl: "tasks s ! tid = Sleeping"
  let ?s1 = "s\<lparr> outbox := outbox s @
                    broadcastVote c (x (currentState s)) (k (currentState s)) \<rparr>"
  have r: "run c (round_events c tid ok) s = after_broadcast c tid ?s1"
    by (rule round_run [OF assms(2) sl])
  have k1: "killed (currentState ?s1)" and t1: "tid < length (tasks ?s1)"
    using assms by simp_all
  note ex = after_broadcast_killed_exit [OF k1 t1, of c]
  show "tasks (run c (round_events c tid ok) s) ! tid = Finished"
    using ex(1) by (simp only: r)
  show "outbox (run c (round_events c tid ok) s) =
          outbox s @ broadcastVote c (x (currentState s)) (k (currentState s))"
    using ex(2) by (simp only: r) simp
  show "k (currentState (run c (round_events c tid ok) s)) = Some (num_k (currentState s) + 1)"
    using ex(5) by (simp only: r) simp
  show "decided (currentState (run c (round_events c tid ok) s)) = Some (2 * F c < N c)"
    using ex(3) by (simp only: r)
  show "x (currentState (run c (round_events c tid ok) s)) =
          (if 2 * F c < N c then Some V1 else x (currentState s))"
    using ex(4) by (simp only: r) simp
next
  assume "tasks s ! tid = Broadcasting ps \<and> ps \<noteq> []"
  then have r: "run c (map (\<lambda>p. Resolved tid p (ok p)) ps) s = after_broadcast c tid s"
    using assms(2) by (intro resolve_all) simp_all
  note ex = after_broadcast_killed_exit [OF assms, of c]
  show "tasks (run c (map (\<lambda>p. Resolved tid p (ok p)) ps) s) ! tid = Finished"
    using ex(1) by (simp only: r)
  show "outbox (run c (map (\<lambda>p. Resolved tid p (ok p)) ps) s) = outbox s"
    using ex(2) by (simp only: r)
  show "k (currentState (run c (map (\<lambda>p. Resolved tid p (ok p)) ps) s)) =
          Some (num_k (currentState s) + 1)"
    using ex(5) by (simp only: r)
  show "decided (currentState (run c (map (\<lambda>p. Resolved tid p (ok p)) ps) s)) =
          Some (2 * F c < N c)"
    using ex(3) by (simp only: r)
  show "x (currentState (run c (map (\<lambda>p. Resolved tid p (ok p)) ps) s)) =
          (if 2 * F c < N c then Some V1 else x (currentState s))"
    using ex(4) by (simp only: r)
qed

theorem stop_ends_loop_with_finality_witness:
  "killed (currentState (run scenario_quick [Start, Stop] (init scenario_quick))) \<and>
   (0::nat) < length (tasks (run scenario_quick [Start, Stop] (init scenario_quick))) \<and>
   tasks (run scenario_quick [Start, Stop] (init scenario_quick)) ! 0 = Sleeping \<and>
   tasks (run scenario_quick
       [TimerFired 0, Resolved 0 1 True, Resolved 0 2 True, Resolved 0 3 True]
       (run scenario_quick [Start, Stop] (init scenario_quick))) ! 0 = Finished \<and>
   decided (currentState (run scenario_quick
       [TimerFired 0, Resolved 0 1 True, Resolved 0 2 True, Resolved 0 3 True]
       (run scenario_quick [Start, Stop] (init scenario_quick)))) = Some True"
proof -
  let ?s = "run scenario_quick [Start, Stop] (init scenario_quick)"
  have h1: "killed (currentState ?s)" and h2: "0 < length (tasks ?s)"
    and h3: "tasks ?s ! 0 = Sleeping"
    by (simp_all add: scenario_quick_started_stopped del: run.simps)
  have e: "round_events scenario_quick 0 (\<lambda>p. True) =
             [TimerFired 0, Resolved 0 1 True, Resolved 0 2 True, Resolved 0 3 True]"
    by (simp add: round_events_def peers_scenario_quick)
  have q: "2 * F scenario_quick < N scenario_quick" by (simp add: scenario_quick_def)
  from stop_ends_loop_with_finality [OF h1 h2, of scenario_quick "\<lambda>p. True" "[]"] h1 h2 h3 q
  show ?thesis by (simp only: e)
qed

section \<open>Start\<close>

lemma loop_head_isRunning [simp]: "isRunning (loop_head c tid s) = isRunning s"
  by (simp add: loop_head_def)

lemma after_broadcast_isRunning [simp]: "isRunning (after_broadcast c tid s) = isRunning s"
  by (simp add: after_broadcast_def)

lemma timer_fired_isRunning [simp]: "isRunning (timer_fired c tid s) = isRunning s"
  by (simp add: timer_fired_def Let_def)

lemma resolved_isRunning [simp]: "isRunning (resolved c tid p ok s) = isRunning s"
  by (simp add: resolved_def split: task.splits)














end
